theory Spec2Isabelle
  imports Main
begin

section \<open>Synthetic CSV dataset generator\<close>

text \<open>
  A shallow embedding of \<^verbatim>\<open>synthetic_data_generator_dimensions.py\<close>. The script has one
  function, \<^verbatim>\<open>generate_dataset(filename, n_rows, n_dims)\<close>, and a module-level pair of
  nested loops that calls it. The function touches the file system, the console and
  NumPy's global random generator; all three are fields of an explicit \<open>world\<close> that is
  passed in and returned. Exceptions are values: a call returns \<open>(Inl e, w')\<close> when it
  raises \<open>e\<close>, with \<open>w'\<close> the world as the exception leaves it.
\<close>

subsection \<open>Python values: integers as text\<close>

text \<open>\<^verbatim>\<open>str(n)\<close> for an integer: decimal digits, most significant first, \<^verbatim>\<open>-\<close> in front
  of a negative number.\<close>

definition digit_char :: "nat \<Rightarrow> char" where
  "digit_char d = ''0123456789'' ! d"

fun str_nat :: "nat \<Rightarrow> string" where
  "str_nat n = (if n < 10 then [digit_char n] else str_nat (n div 10) @ [digit_char (n mod 10)])"

declare str_nat.simps [simp del]

definition str :: "int \<Rightarrow> string" where
  "str i = (if i < 0 then CHR ''-'' # str_nat (nat (- i)) else str_nat (nat i))"

text \<open>\<^verbatim>\<open>range(n)\<close>: the integers \<open>0, \<dots>, n - 1\<close>, empty when \<open>n \<le> 0\<close>.\<close>

definition range_py :: "int \<Rightarrow> int list" where
  "range_py n = map int [0..<nat n]"

subsection \<open>The csv writer\<close>

text \<open>
  \<^verbatim>\<open>csv.writer(csvfile)\<close> uses the \<^verbatim>\<open>excel\<close> dialect: delimiter \<^verbatim>\<open>,\<close>, quote character
  \<^verbatim>\<open>"\<close>, minimal quoting with doubled quotes, and the line terminator carriage return,
  line feed. A field is quoted when it holds the delimiter, the quote character or a
  character of the line terminator; a row of one empty field is written as two quote
  characters.
\<close>

definition CR :: char where
  "CR = CHR 0x0D"

definition LF :: char where
  "LF = CHR 0x0A"

definition delimiter :: char where
  "delimiter = CHR '',''"

definition quotechar :: char where
  "quotechar = CHR 0x22"

definition lineterminator :: string where
  "lineterminator = [CR, LF]"

definition needs_quote :: "string \<Rightarrow> bool" where
  "needs_quote s = list_ex (\<lambda>c. c = delimiter \<or> c = quotechar \<or> c \<in> set lineterminator) s"

definition csv_field :: "string \<Rightarrow> string" where
  "csv_field s =
     (if needs_quote s
      then quotechar # concat (map (\<lambda>c. if c = quotechar then [c, c] else [c]) s) @ [quotechar]
      else s)"

fun join :: "char \<Rightarrow> string list \<Rightarrow> string" where
  "join sep [] = []"
| "join sep [x] = x"
| "join sep (x # y # ys) = x @ sep # join sep (y # ys)"

definition csv_record :: "string list \<Rightarrow> string" where
  "csv_record row =
     (if row = [[]] then [quotechar, quotechar] else join delimiter (map csv_field row))"

definition csv_row :: "string list \<Rightarrow> string" where
  "csv_row row = csv_record row @ lineterminator"

subsection \<open>The world: files, console, random generator\<close>

datatype error = OSError | ValueError

text \<open>
  A file object opened for writing in text mode: the name it was opened under and the
  \<^verbatim>\<open>newline\<close> argument of \<^verbatim>\<open>open\<close> (\<open>None\<close> when it is not given).
\<close>

type_synonym file_object = "string \<times> string option"

text \<open>
  \<^item> \<open>disk\<close>: the contents of the files, by name;
  \<^item> \<open>handles\<close>: the file objects that are open, the most recently opened first;
  \<^item> \<open>writable\<close>: whether \<^verbatim>\<open>open(name, 'w')\<close> succeeds for a name;
  \<^item> \<open>io_budget\<close>: how many more writes the device accepts before a write raises
    \<^verbatim>\<open>OSError\<close> (\<open>None\<close>: it never does);
  \<^item> \<open>linesep\<close>: the platform's line ending, \<^verbatim>\<open>os.linesep\<close>;
  \<^item> \<open>stdout\<close>: the lines printed so far;
  \<^item> \<open>bitgen\<close>: the stream of raw outputs the global random generator produces next,
    one element for each sample drawn.
\<close>

record world =
  disk :: "string \<rightharpoonup> string"
  handles :: "file_object list"
  writable :: "string \<Rightarrow> bool"
  io_budget :: "nat option"
  linesep :: string
  stdout :: "string list"
  bitgen :: "nat \<Rightarrow> nat"

text \<open>\<^verbatim>\<open>open(name, 'w', newline=nl)\<close>: raises when the file cannot be created, otherwise
  truncates it and returns a new file object.\<close>

definition open_w :: "string \<Rightarrow> string option \<Rightarrow> world \<Rightarrow> (error + file_object) \<times> world" where
  "open_w name newline w =
     (if writable w name
      then (Inr (name, newline),
            w\<lparr>disk := (disk w)(name \<mapsto> []), handles := (name, newline) # handles w\<rparr>)
      else (Inl OSError, w))"

text \<open>
  What a text-mode file does to the line feeds written to it: with no \<^verbatim>\<open>newline\<close>
  argument they become the platform's line ending; with \<^verbatim>\<open>newline=''\<close> or
  \<^verbatim>\<open>newline='\n'\<close> nothing is translated; with any other value they become that value.
\<close>

definition translate_newlines :: "string option \<Rightarrow> string \<Rightarrow> string \<Rightarrow> string" where
  "translate_newlines newline sep s =
     (case newline of
        None \<Rightarrow> concat (map (\<lambda>c. if c = LF then sep else [c]) s)
      | Some nl \<Rightarrow>
          if nl = [] \<or> nl = [LF] then s
          else concat (map (\<lambda>c. if c = LF then nl else [c]) s))"

definition contents :: "world \<Rightarrow> string \<Rightarrow> string" where
  "contents w name = (case disk w name of None \<Rightarrow> [] | Some c \<Rightarrow> c)"

text \<open>\<^verbatim>\<open>f.write(s)\<close>: raises \<^verbatim>\<open>ValueError\<close> on a closed file and \<^verbatim>\<open>OSError\<close> when the device
  fails; otherwise appends the translated text.\<close>

definition fwrite :: "file_object \<Rightarrow> string \<Rightarrow> world \<Rightarrow> (error + unit) \<times> world" where
  "fwrite f s w =
     (if f \<notin> set (handles w) then (Inl ValueError, w)
      else
        (case io_budget w of
           Some 0 \<Rightarrow> (Inl OSError, w)
         | Some (Suc b) \<Rightarrow>
             (Inr (), w\<lparr>disk := (disk w)(fst f \<mapsto> contents w (fst f) @ translate_newlines (snd f) (linesep w) s),
                        io_budget := Some b\<rparr>)
         | None \<Rightarrow>
             (Inr (), w\<lparr>disk := (disk w)(fst f \<mapsto> contents w (fst f) @ translate_newlines (snd f) (linesep w) s)\<rparr>)))"

definition fclose :: "file_object \<Rightarrow> world \<Rightarrow> world" where
  "fclose f w = w\<lparr>handles := remove1 f (handles w)\<rparr>"

definition writerow :: "file_object \<Rightarrow> string list \<Rightarrow> world \<Rightarrow> (error + unit) \<times> world" where
  "writerow csvfile row w = fwrite csvfile (csv_row row) w"

definition print :: "string \<Rightarrow> world \<Rightarrow> world" where
  "print s w = w\<lparr>stdout := stdout w @ [s]\<rparr>"

text \<open>
  \<^verbatim>\<open>np.random.randint(low, high, size=n)\<close>: raises \<^verbatim>\<open>ValueError\<close> for a negative size or
  an empty interval; otherwise consumes \<open>n\<close> elements of the generator's stream and takes
  each into \<open>low, \<dots>, high - 1\<close>. How NumPy reduces the bits of its generator into the
  interval (by rejection) is not modelled: an element of the stream stands for whatever
  the generator consumes for one sample, and only the interval of the result and the
  fact that each sample has its own element are kept.
\<close>

definition randint :: "int \<Rightarrow> int \<Rightarrow> int \<Rightarrow> world \<Rightarrow> (error + int list) \<times> world" where
  "randint low high n w =
     (if n < 0 \<or> high \<le> low then (Inl ValueError, w)
      else (Inr (map (\<lambda>k. low + int (bitgen w k mod nat (high - low))) [0..<nat n]),
            w\<lparr>bitgen := (\<lambda>k. bitgen w (k + nat n))\<rparr>))"

subsection \<open>generate\_dataset\<close>

text \<open>The list \<^verbatim>\<open>headers\<close>: \<^verbatim>\<open>[f"dimension_{i+1}" for i in range(n_dims)]\<close>.\<close>

definition headers :: "int \<Rightarrow> string list" where
  "headers n_dims = map (\<lambda>i. ''dimension_'' @ str (i + 1)) (range_py n_dims)"

text \<open>The \<^verbatim>\<open>for _ in range(n_rows)\<close> loop, by the number of iterations left. The writer
  made by \<^verbatim>\<open>csv.writer(csvfile)\<close> has no state of its own: it is the file object it
  writes to.\<close>

fun row_loop :: "nat \<Rightarrow> file_object \<Rightarrow> int \<Rightarrow> world \<Rightarrow> (error + unit) \<times> world" where
  "row_loop 0 writer n_dims w = (Inr (), w)"
| "row_loop (Suc k) writer n_dims w =
     (case randint 0 101 n_dims w of
        (Inl e, w1) \<Rightarrow> (Inl e, w1)
      | (Inr values, w1) \<Rightarrow>
          (case writerow writer (map str values) w1 of
             (Inl e, w2) \<Rightarrow> (Inl e, w2)
           | (Inr u, w2) \<Rightarrow> row_loop k writer n_dims w2))"

text \<open>The body of the \<^verbatim>\<open>with\<close> statement.\<close>

definition with_body :: "file_object \<Rightarrow> string list \<Rightarrow> int \<Rightarrow> int \<Rightarrow> world \<Rightarrow> (error + unit) \<times> world" where
  "with_body csvfile hs n_rows n_dims w =
     (case writerow csvfile hs w of
        (Inl e, w1) \<Rightarrow> (Inl e, w1)
      | (Inr u, w1) \<Rightarrow> row_loop (length (range_py n_rows)) csvfile n_dims w1)"

definition message :: "string \<Rightarrow> int \<Rightarrow> int \<Rightarrow> string" where
  "message filename n_rows n_dims =
     ''Generated '' @ str n_rows @ '' rows x '' @ str n_dims @ '' dimensions in '' @
     [CHR 0x27] @ filename @ [CHR 0x27]"

text \<open>The \<^verbatim>\<open>with\<close> statement closes the file when its body ends and when its body
  raises; an exception then goes on to the caller and nothing is printed.\<close>

definition generate_dataset :: "string \<Rightarrow> int \<Rightarrow> int \<Rightarrow> world \<Rightarrow> (error + unit) \<times> world" where
  "generate_dataset filename n_rows n_dims w =
     (let hs = headers n_dims in
      case open_w filename (Some []) w of
        (Inl e, w1) \<Rightarrow> (Inl e, w1)
      | (Inr csvfile, w1) \<Rightarrow>
          (case with_body csvfile hs n_rows n_dims w1 of
             (Inl e, w2) \<Rightarrow> (Inl e, fclose csvfile w2)
           | (Inr u, w2) \<Rightarrow> (Inr (), print (message filename n_rows n_dims) (fclose csvfile w2))))"

subsection \<open>The driver\<close>

definition sizes :: "int list" where
  "sizes = [100, 1000, 10000, 100000]"

definition dimensions :: "int list" where
  "dimensions = [10, 20]"

fun size_loop :: "int \<Rightarrow> int list \<Rightarrow> world \<Rightarrow> (error + unit) \<times> world" where
  "size_loop n_dims [] w = (Inr (), w)"
| "size_loop n_dims (n # rest) w =
     (case generate_dataset (''dataset_'' @ str n_dims @ ''D_'' @ str n @ ''.csv'') n n_dims w of
        (Inl e, w1) \<Rightarrow> (Inl e, w1)
      | (Inr u, w1) \<Rightarrow> size_loop n_dims rest w1)"

fun dims_loop :: "int list \<Rightarrow> world \<Rightarrow> (error + unit) \<times> world" where
  "dims_loop [] w = (Inr (), w)"
| "dims_loop (n_dims # rest) w =
     (case size_loop n_dims sizes w of
        (Inl e, w1) \<Rightarrow> (Inl e, w1)
      | (Inr u, w1) \<Rightarrow> dims_loop rest w1)"

definition driver :: "world \<Rightarrow> (error + unit) \<times> world" where
  "driver w = dims_loop dimensions w"

subsection \<open>Reading a generated file back\<close>

text \<open>
  The properties below speak of the lines of a file, the fields of a line and the
  integer in a field. These are the readers that say what those are: \<^verbatim>\<open>str.splitlines\<close> for the line
  boundaries carriage return, line feed and the pair of both, \<^verbatim>\<open>str.split(sep)\<close> for a
  one-character separator, and \<^verbatim>\<open>int\<close> for plain decimal text with an optional minus sign.
\<close>

fun splitlines :: "string \<Rightarrow> string list" where
  "splitlines [] = []"
| "splitlines [c] = (if c = LF \<or> c = CR then [[]] else [[c]])"
| "splitlines (c # d # ds) =
     (if c = CR \<and> d = LF then [] # splitlines ds
      else if c = LF \<or> c = CR then [] # splitlines (d # ds)
      else (case splitlines (d # ds) of [] \<Rightarrow> [[c]] | l # ls \<Rightarrow> (c # l) # ls))"

fun split_on :: "char \<Rightarrow> string \<Rightarrow> string list" where
  "split_on sep [] = [[]]"
| "split_on sep (c # cs) =
     (if c = sep then [] # split_on sep cs
      else (case split_on sep cs of [] \<Rightarrow> [[c]] | l # ls \<Rightarrow> (c # l) # ls))"

definition is_digit :: "char \<Rightarrow> bool" where
  "is_digit c = (c \<in> set ''0123456789'')"

definition digit_value :: "char \<Rightarrow> nat" where
  "digit_value c = of_char c - 48"

definition nat_of_str :: "string \<Rightarrow> nat option" where
  "nat_of_str s =
     (if s \<noteq> [] \<and> list_all is_digit s
      then Some (foldl (\<lambda>a c. 10 * a + digit_value c) 0 s)
      else None)"

definition int_of_str :: "string \<Rightarrow> int option" where
  "int_of_str s =
     (case s of
        [] \<Rightarrow> None
      | c # cs \<Rightarrow>
          if c = CHR ''-'' then map_option (\<lambda>n. - int n) (nat_of_str cs)
          else map_option int (nat_of_str s))"

subsection \<open>What a run draws and writes\<close>

text \<open>
  The sample arrays that \<open>k\<close> iterations of the row loop draw, \<open>d\<close> values each, from a
  generator whose raw outputs are \<open>g\<close>; and the text of the file these make.
\<close>

fun samples :: "nat \<Rightarrow> nat \<Rightarrow> (nat \<Rightarrow> nat) \<Rightarrow> int list list" where
  "samples 0 d g = []"
| "samples (Suc k) d g = map (\<lambda>j. int (g j mod 101)) [0..<d] # samples k d (\<lambda>j. g (j + d))"

definition file_text :: "int \<Rightarrow> int \<Rightarrow> (nat \<Rightarrow> nat) \<Rightarrow> string" where
  "file_text n_rows n_dims g =
     csv_row (headers n_dims) @
     concat (map (\<lambda>r. csv_row (map str r)) (samples (nat n_rows) (nat n_dims) g))"

text \<open>The lines of that text, without their terminators.\<close>

definition file_lines :: "int \<Rightarrow> int \<Rightarrow> (nat \<Rightarrow> nat) \<Rightarrow> string list" where
  "file_lines n_rows n_dims g =
     join delimiter (headers n_dims) #
     map (\<lambda>r. join delimiter (map str r)) (samples (nat n_rows) (nat n_dims) g)"

text \<open>The fields of the first line of a text, and the integers in the fields of the lines
  after it (\<open>None\<close> where a field is not an integer).\<close>

definition header_fields :: "string \<Rightarrow> string list" where
  "header_fields text = (case splitlines text of [] \<Rightarrow> [] | l # ls \<Rightarrow> split_on delimiter l)"

definition cells :: "string \<Rightarrow> int option list list" where
  "cells text = map (\<lambda>l. map int_of_str (split_on delimiter l)) (tl (splitlines text))"



text \<open>A text is made of rows that end with \<open>sep\<close> when it is its lines, each followed by
  \<open>sep\<close>.\<close>

definition rows_end_with :: "string \<Rightarrow> string \<Rightarrow> bool" where
  "rows_end_with sep text = (text = concat (map (\<lambda>l. l @ sep) (splitlines text)))"

subsection \<open>Sequences of calls\<close>

text \<open>A list of calls of \<open>generate_dataset\<close>, run one after the other; an exception ends
  the run.\<close>

fun call_seq :: "(string \<times> int \<times> int) list \<Rightarrow> world \<Rightarrow> (error + unit) \<times> world" where
  "call_seq [] w = (Inr (), w)"
| "call_seq ((filename, n_rows, n_dims) # rest) w =
     (case generate_dataset filename n_rows n_dims w of
        (Inl e, w1) \<Rightarrow> (Inl e, w1)
      | (Inr u, w1) \<Rightarrow> call_seq rest w1)"

text \<open>What a call leaves of the world it runs in: which files can be opened, and a device
  that never fails.\<close>

definition undisturbed :: "world \<Rightarrow> world \<Rightarrow> bool" where
  "undisturbed w w' =
     (writable w' = writable w \<and> (io_budget w = None \<longrightarrow> io_budget w' = None))"

subsection \<open>A world to run in\<close>

text \<open>An empty disk on which every file can be opened and no write fails, no open file, a
  generator whose raw outputs are \<open>250, 287, 324, \<dots>\<close>.\<close>

definition demo_world :: world where
  "demo_world =
     \<lparr>disk = Map.empty, handles = [], writable = (\<lambda>name. True), io_budget = None,
      linesep = [LF], stdout = [], bitgen = (\<lambda>k. 37 * k + 250)\<rparr>"

section \<open>Properties\<close>

subsection \<open>Decimal text\<close>

lemma str_nat_nonempty: "str_nat n \<noteq> []"
  by (subst str_nat.simps) simp

lemma digit_char_is_digit: "d < 10 \<Longrightarrow> is_digit (digit_char d)"
  by (simp add: is_digit_def digit_char_def nth_Cons')

lemma str_nat_digits: "list_all is_digit (str_nat n)"
proof (induction n rule: str_nat.induct)
  case (1 n)
  show ?case
  proof (cases "n < 10")
    case True
    then show ?thesis by (subst str_nat.simps) (simp add: digit_char_is_digit)
  next
    case False
    with 1 show ?thesis by (subst str_nat.simps) (simp add: digit_char_is_digit)
  qed
qed

lemma digit_value_digit_char: "d < 10 \<Longrightarrow> digit_value (digit_char d) = d"
proof -
  assume "d < 10"
  then have "d \<in> {0, 1, 2, 3, 4, 5, 6, 7, 8, 9}" by auto
  then show ?thesis
    by (auto simp: digit_value_def digit_char_def)
qed

lemma foldl_str_nat: "foldl (\<lambda>a c. 10 * a + digit_value c) 0 (str_nat n) = n"
proof (induction n rule: str_nat.induct)
  case (1 n)
  show ?case
  proof (cases "n < 10")
    case True
    then show ?thesis by (subst str_nat.simps) (simp add: digit_value_digit_char)
  next
    case False
    with 1 show ?thesis by (subst str_nat.simps) (simp add: digit_value_digit_char)
  qed
qed

lemma nat_of_str_str_nat: "nat_of_str (str_nat n) = Some n"
  by (simp add: nat_of_str_def str_nat_nonempty str_nat_digits foldl_str_nat)

lemma str_nat_not_minus: "str_nat n = c # cs \<Longrightarrow> c \<noteq> CHR ''-''"
proof -
  assume h: "str_nat n = c # cs"
  have "list_all is_digit (c # cs)" using str_nat_digits [of n] h by simp
  then have "is_digit c" by simp
  then show ?thesis by (auto simp: is_digit_def)
qed

lemma int_of_str_str: "int_of_str (str v) = Some v"
proof (cases "v < 0")
  case True
  then show ?thesis by (simp add: int_of_str_def str_def nat_of_str_str_nat)
next
  case False
  obtain c cs where h: "str_nat (nat v) = c # cs"
    using str_nat_nonempty [of "nat v"] by (cases "str_nat (nat v)") auto
  have "c \<noteq> CHR ''-''" using h by (rule str_nat_not_minus)
  moreover have "nat_of_str (c # cs) = Some (nat v)" using nat_of_str_str_nat [of "nat v"] h by simp
  ultimately show ?thesis using False h by (simp add: int_of_str_def str_def)
qed

subsection \<open>Fields that need no quoting\<close>

lemma needs_quote_iff:
  "needs_quote s \<longleftrightarrow> delimiter \<in> set s \<or> quotechar \<in> set s \<or> CR \<in> set s \<or> LF \<in> set s"
  unfolding needs_quote_def list_ex_iff lineterminator_def by auto

lemma digit_not_special:
  "is_digit c \<Longrightarrow> c \<noteq> delimiter \<and> c \<noteq> quotechar \<and> c \<noteq> CR \<and> c \<noteq> LF"
  unfolding is_digit_def delimiter_def quotechar_def CR_def LF_def by auto

lemma digits_plain: "list_all is_digit s \<Longrightarrow> \<not> needs_quote s"
  unfolding needs_quote_iff list_all_iff using digit_not_special by blast

lemma str_nat_plain: "\<not> needs_quote (str_nat n)"
  by (rule digits_plain) (rule str_nat_digits)

lemma minus_not_special:
  "CHR ''-'' \<noteq> delimiter \<and> CHR ''-'' \<noteq> quotechar \<and> CHR ''-'' \<noteq> CR \<and> CHR ''-'' \<noteq> LF"
  unfolding delimiter_def quotechar_def CR_def LF_def by simp

lemma needs_quote_Cons:
  "needs_quote (c # s) \<longleftrightarrow> c = delimiter \<or> c = quotechar \<or> c = CR \<or> c = LF \<or> needs_quote s"
  unfolding needs_quote_iff by auto

lemma needs_quote_append: "needs_quote (s @ t) \<longleftrightarrow> needs_quote s \<or> needs_quote t"
  unfolding needs_quote_iff by auto

lemma str_plain: "\<not> needs_quote (str v)"
  using minus_not_special by (simp add: str_def needs_quote_Cons str_nat_plain)

lemma prefix_plain: "\<not> needs_quote ''dimension_''"
  unfolding needs_quote_def lineterminator_def delimiter_def quotechar_def CR_def LF_def by simp

lemma header_plain: "\<not> needs_quote (''dimension_'' @ str v)"
  using prefix_plain str_plain by (simp only: needs_quote_append) simp

lemma str_nonempty: "str v \<noteq> []"
  by (simp add: str_def str_nat_nonempty)

subsection \<open>Joining and splitting\<close>

lemma split_on_plain: "sep \<notin> set x \<Longrightarrow> split_on sep x = [x]"
  by (induction x) auto

lemma split_on_append: "sep \<notin> set x \<Longrightarrow> split_on sep (x @ sep # rest) = x # split_on sep rest"
  by (induction x) auto

lemma split_on_join:
  "xs \<noteq> [] \<Longrightarrow> list_all (\<lambda>x. sep \<notin> set x) xs \<Longrightarrow> split_on sep (join sep xs) = xs"
  by (induction sep xs rule: join.induct) (auto simp: split_on_plain split_on_append)

lemma set_join: "set (join sep xs) \<subseteq> insert sep (\<Union> (set ` set xs))"
  by (induction sep xs rule: join.induct) auto

lemma csv_record_plain:
  "list_all (\<lambda>x. \<not> needs_quote x) row \<Longrightarrow> row \<noteq> [[]] \<Longrightarrow> csv_record row = join delimiter row"
proof -
  assume a: "list_all (\<lambda>x. \<not> needs_quote x) row" and b: "row \<noteq> [[]]"
  have "map csv_field row = row"
    using a by (induction row) (auto simp: csv_field_def)
  then show ?thesis using b by (simp add: csv_record_def)
qed

subsection \<open>Lines\<close>

lemma splitlines_line:
  "CR \<notin> set l \<Longrightarrow> LF \<notin> set l \<Longrightarrow> splitlines (l @ CR # LF # rest) = l # splitlines rest"
proof (induction l)
  case Nil
  then show ?case by simp
next
  case (Cons c l)
  then show ?case by (cases l) auto
qed

lemma splitlines_concat:
  "list_all (\<lambda>l. CR \<notin> set l \<and> LF \<notin> set l) ls \<Longrightarrow>
   splitlines (concat (map (\<lambda>l. l @ lineterminator) ls)) = ls"
  by (induction ls) (auto simp: lineterminator_def splitlines_line)

subsection \<open>Steps of a run\<close>

lemma translate_newlines_empty: "translate_newlines (Some []) sep s = s"
  by (simp add: translate_newlines_def)

lemma fwrite_ok:
  assumes "(name, Some []) \<in> set (handles w)" and "io_budget w = None"
  shows "fwrite (name, Some []) s w =
         (Inr (), w\<lparr>disk := (disk w)(name \<mapsto> contents w name @ s)\<rparr>)"
  using assms by (simp add: fwrite_def translate_newlines_empty)

lemma randint_ok:
  assumes "0 \<le> d"
  shows "randint 0 101 d w =
         (Inr (map (\<lambda>j. int (bitgen w j mod 101)) [0..<nat d]),
          w\<lparr>bitgen := (\<lambda>k. bitgen w (k + nat d))\<rparr>)"
  using assms by (simp add: randint_def)

lemma randint_negative: "d < 0 \<Longrightarrow> randint low high d w = (Inl ValueError, w)"
  by (simp add: randint_def)

lemma row_loop_ok:
  assumes "(name, Some []) \<in> set (handles w)" and "io_budget w = None" and "0 \<le> d"
    and "disk w name = Some c"
  shows "row_loop k (name, Some []) d w =
         (Inr (),
          w\<lparr>disk := (disk w)(name \<mapsto>
                 c @ concat (map (\<lambda>r. csv_row (map str r)) (samples k (nat d) (bitgen w)))),
            bitgen := (\<lambda>j. bitgen w (j + k * nat d))\<rparr>)"
  using assms
proof (induction k arbitrary: w c)
  case 0
  have "(disk w)(name \<mapsto> c) = disk w" using 0 by (simp add: map_upd_triv)
  then show ?case by simp
next
  case (Suc k)
  let ?row = "csv_row (map str (map (\<lambda>j. int (bitgen w j mod 101)) [0..<nat d]))"
  let ?w1 = "w\<lparr>bitgen := (\<lambda>k. bitgen w (k + nat d))\<rparr>"
  let ?w2 = "?w1\<lparr>disk := (disk ?w1)(name \<mapsto> contents ?w1 name @ ?row)\<rparr>"
  have r: "randint 0 101 d w = (Inr (map (\<lambda>j. int (bitgen w j mod 101)) [0..<nat d]), ?w1)"
    using Suc.prems by (simp add: randint_ok)
  have h1: "(name, Some []) \<in> set (handles ?w1)" and b1: "io_budget ?w1 = None"
    using Suc.prems by simp_all
  have wr: "writerow (name, Some []) (map str (map (\<lambda>j. int (bitgen w j mod 101)) [0..<nat d])) ?w1
            = (Inr (), ?w2)"
    unfolding writerow_def by (rule fwrite_ok [OF h1 b1])
  have c1: "contents ?w1 name = c" using Suc.prems by (simp add: contents_def)
  have ih: "row_loop k (name, Some []) d ?w2 =
         (Inr (),
          ?w2\<lparr>disk := (disk ?w2)(name \<mapsto>
                 (c @ ?row) @ concat (map (\<lambda>r. csv_row (map str r)) (samples k (nat d) (bitgen ?w2)))),
            bitgen := (\<lambda>j. bitgen ?w2 (j + k * nat d))\<rparr>)"
    by (rule Suc.IH) (use Suc.prems c1 in simp_all)
  let ?R = "concat (map (\<lambda>r. csv_row (map str r)) (samples k (nat d) (bitgen ?w2)))"
  have A: "(disk ?w2)(name \<mapsto> (c @ ?row) @ ?R) =
           (disk w)(name \<mapsto> c @ concat (map (\<lambda>r. csv_row (map str r)) (samples (Suc k) (nat d) (bitgen w))))"
    by (simp add: c1)
  have B: "(\<lambda>j. bitgen ?w2 (j + k * nat d)) = (\<lambda>j. bitgen w (j + Suc k * nat d))"
  proof
    fix j
    have "j + k * nat d + nat d = j + Suc k * nat d" by simp
    then have "bitgen w (j + k * nat d + nat d) = bitgen w (j + Suc k * nat d)"
      by (rule arg_cong)
    then show "bitgen ?w2 (j + k * nat d) = bitgen w (j + Suc k * nat d)" by simp
  qed
  have C: "?w2\<lparr>disk := X, bitgen := Y\<rparr> = w\<lparr>disk := X, bitgen := Y\<rparr>" for X Y
    by simp
  have "row_loop (Suc k) (name, Some []) d w = row_loop k (name, Some []) d ?w2"
    using r wr by simp
  also note ih
  finally show ?case
    unfolding A B C .
qed

subsection \<open>Open handles\<close>

lemma handles_fwrite: "handles (snd (fwrite f s w)) = handles w"
  by (simp add: fwrite_def split: option.splits nat.splits)

lemma handles_writerow: "handles (snd (writerow f row w)) = handles w"
  by (simp add: writerow_def handles_fwrite)

lemma handles_randint: "handles (snd (randint low high d w)) = handles w"
  by (simp add: randint_def)

lemma handles_row_loop: "handles (snd (row_loop k f d w)) = handles w"
proof (induction k arbitrary: w)
  case 0
  show ?case by simp
next
  case (Suc k)
  obtain r1 w1 where r: "randint 0 101 d w = (r1, w1)" by (cases "randint 0 101 d w")
  have h1: "handles w1 = handles w" using handles_randint [of 0 101 d w] r by simp
  show ?case
  proof (cases r1)
    case (Inl e)
    then show ?thesis using r h1 by simp
  next
    case (Inr vals)
    obtain r2 w2 where wr: "writerow f (map str vals) w1 = (r2, w2)"
      by (cases "writerow f (map str vals) w1")
    have h2: "handles w2 = handles w1" using handles_writerow [of f "map str vals" w1] wr by simp
    show ?thesis
    proof (cases r2)
      case (Inl e)
      then show ?thesis using r Inr wr h1 h2 by simp
    next
      case (Inr u)
      then show ?thesis using r \<open>r1 = Inr vals\<close> wr h1 h2 Suc.IH [of w2] by simp
    qed
  qed
qed

lemma handles_with_body: "handles (snd (with_body f hs n_rows n_dims w)) = handles w"
proof -
  obtain r1 w1 where wr: "writerow f hs w = (r1, w1)" by (cases "writerow f hs w")
  have h1: "handles w1 = handles w" using handles_writerow [of f hs w] wr by simp
  show ?thesis
    using wr h1 handles_row_loop [of "length (range_py n_rows)" f n_dims w1]
    by (cases r1) (simp_all add: with_body_def)
qed

subsection \<open>A run with no fault\<close>

lemma generate_dataset_ok:
  assumes wr: "writable w f" and bud: "io_budget w = None" and dims: "0 \<le> n_dims"
  shows "generate_dataset f n_rows n_dims w =
         (Inr (),
          w\<lparr>disk := (disk w)(f \<mapsto> file_text n_rows n_dims (bitgen w)),
            stdout := stdout w @ [message f n_rows n_dims],
            bitgen := (\<lambda>j. bitgen w (j + nat n_rows * nat n_dims))\<rparr>)"
proof -
  let ?w1 = "w\<lparr>disk := (disk w)(f \<mapsto> []), handles := (f, Some []) # handles w\<rparr>"
  let ?w2 = "?w1\<lparr>disk := (disk ?w1)(f \<mapsto> contents ?w1 f @ csv_row (headers n_dims))\<rparr>"
  let ?rows = "concat (map (\<lambda>r. csv_row (map str r)) (samples (nat n_rows) (nat n_dims) (bitgen ?w2)))"
  let ?w3 = "?w2\<lparr>disk := (disk ?w2)(f \<mapsto> csv_row (headers n_dims) @ ?rows),
                 bitgen := (\<lambda>j. bitgen ?w2 (j + nat n_rows * nat n_dims))\<rparr>"
  have op: "open_w f (Some []) w = (Inr (f, Some []), ?w1)"
    using wr by (simp add: open_w_def)
  have h1: "(f, Some []) \<in> set (handles ?w1)" and b1: "io_budget ?w1 = None"
    using bud by simp_all
  have hd: "writerow (f, Some []) (headers n_dims) ?w1 = (Inr (), ?w2)"
    unfolding writerow_def by (rule fwrite_ok [OF h1 b1])
  have h2: "(f, Some []) \<in> set (handles ?w2)" and b2: "io_budget ?w2 = None"
    and d2: "disk ?w2 f = Some (csv_row (headers n_dims))"
    using bud by (simp_all add: contents_def)
  have lp: "row_loop (nat n_rows) (f, Some []) n_dims ?w2 = (Inr (), ?w3)"
    by (rule row_loop_ok [OF h2 b2 dims d2])
  have body: "with_body (f, Some []) (headers n_dims) n_rows n_dims ?w1 = (Inr (), ?w3)"
    using hd lp by (simp add: with_body_def range_py_def)
  have fin: "print (message f n_rows n_dims) (fclose (f, Some []) ?w3) =
             w\<lparr>disk := (disk w)(f \<mapsto> file_text n_rows n_dims (bitgen w)),
               stdout := stdout w @ [message f n_rows n_dims],
               bitgen := (\<lambda>j. bitgen w (j + nat n_rows * nat n_dims))\<rparr>"
    by (simp add: print_def fclose_def file_text_def)
  have "generate_dataset f n_rows n_dims w =
        (Inr (), print (message f n_rows n_dims) (fclose (f, Some []) ?w3))"
    using op body by (simp add: generate_dataset_def)
  then show ?thesis unfolding fin .
qed

lemma contents_after_ok:
  assumes "writable w f" and "io_budget w = None" and "0 \<le> n_dims"
  shows "contents (snd (generate_dataset f n_rows n_dims w)) f = file_text n_rows n_dims (bitgen w)"
  using generate_dataset_ok [OF assms, of n_rows] by (simp add: contents_def)

subsection \<open>The shape of the text\<close>

lemma headers_plain: "list_all (\<lambda>x. \<not> needs_quote x) (headers n)"
  unfolding list_all_iff
proof
  fix x assume "x \<in> set (headers n)"
  then obtain i where "x = ''dimension_'' @ str (i + 1)"
    unfolding headers_def by auto
  then show "\<not> needs_quote x" by (simp only: header_plain not_False_eq_True)
qed

lemma headers_not_blank: "headers n \<noteq> [[]]"
proof
  assume "headers n = [[]]"
  then have "[] \<in> set (headers n)" by simp
  then obtain i where "[] = ''dimension_'' @ str (i + 1)"
    unfolding headers_def by auto
  then show False by simp
qed

lemma strs_plain: "list_all (\<lambda>x. \<not> needs_quote x) (map str r)"
  by (simp add: list_all_iff str_plain)

lemma strs_not_blank: "map str r \<noteq> [[]]"
proof
  assume "map str r = [[]]"
  then obtain v where "str v = []" by (cases r) auto
  then show False by (simp add: str_nonempty)
qed

lemma csv_record_headers: "csv_record (headers n) = join delimiter (headers n)"
  by (rule csv_record_plain [OF headers_plain headers_not_blank])

lemma csv_record_strs: "csv_record (map str r) = join delimiter (map str r)"
  by (rule csv_record_plain [OF strs_plain strs_not_blank])

lemma join_clean:
  assumes "list_all (\<lambda>x. \<not> needs_quote x) row"
  shows "CR \<notin> set (join delimiter row) \<and> LF \<notin> set (join delimiter row)"
proof -
  have a: "\<forall>x\<in>set row. CR \<notin> set x \<and> LF \<notin> set x"
    using assms by (simp add: list_all_iff needs_quote_iff)
  have b: "CR \<noteq> delimiter \<and> LF \<noteq> delimiter"
    by (simp add: CR_def LF_def delimiter_def)
  show ?thesis using set_join [of delimiter row] a b by blast
qed

lemma file_text_lines:
  "file_text n_rows n_dims g = concat (map (\<lambda>l. l @ lineterminator) (file_lines n_rows n_dims g))"
  by (simp add: file_text_def file_lines_def csv_row_def csv_record_headers csv_record_strs
      comp_def)

lemma file_lines_clean:
  "list_all (\<lambda>l. CR \<notin> set l \<and> LF \<notin> set l) (file_lines n_rows n_dims g)"
  using join_clean [OF headers_plain] join_clean [OF strs_plain]
  by (simp add: file_lines_def list_all_iff)

lemma splitlines_file_text: "splitlines (file_text n_rows n_dims g) = file_lines n_rows n_dims g"
  unfolding file_text_lines by (rule splitlines_concat [OF file_lines_clean])

subsection \<open>The samples\<close>

lemma length_samples: "length (samples k d g) = k"
  by (induction k arbitrary: g) simp_all

lemma samples_rows:
  "r \<in> set (samples k d g) \<Longrightarrow> length r = d \<and> (\<forall>v\<in>set r. 0 \<le> v \<and> v \<le> 100)"
proof (induction k arbitrary: g)
  case 0
  then show ?case by simp
next
  case (Suc k)
  then show ?case by auto
qed

lemma samples_nth:
  "i < k \<Longrightarrow> j < d \<Longrightarrow> samples k d g ! i ! j = int (g (i * d + j) mod 101)"
proof (induction k arbitrary: g i)
  case 0
  then show ?case by simp
next
  case (Suc k)
  show ?case
  proof (cases i)
    case 0
    then show ?thesis using Suc.prems by simp
  next
    case (Suc i')
    have "i' * d + j + d = d + i' * d + j" by simp
    then have "g (i' * d + j + d) = g (d + i' * d + j)" by (rule arg_cong)
    then show ?thesis using Suc Suc.prems Suc.IH [of i' "\<lambda>j. g (j + d)"] by simp
  qed
qed


subsection \<open>The header\<close>

lemma length_headers: "length (headers n) = nat n"
  by (simp add: headers_def range_py_def)

lemma headers_nth: "i < nat n \<Longrightarrow> headers n ! i = ''dimension_'' @ str (int i + 1)"
  by (simp add: headers_def range_py_def)

lemma headers_no_delimiter: "list_all (\<lambda>x. delimiter \<notin> set x) (headers n)"
  using headers_plain [of n] by (simp add: list_all_iff needs_quote_iff)

lemma strs_no_delimiter: "list_all (\<lambda>x. delimiter \<notin> set x) (map str r)"
  using strs_plain [of r] by (simp add: list_all_iff needs_quote_iff)

lemma split_header_line:
  "0 < n \<Longrightarrow> split_on delimiter (join delimiter (headers n)) = headers n"
proof -
  assume "0 < n"
  then have "headers n \<noteq> []" using length_headers [of n] by auto
  then show ?thesis using headers_no_delimiter by (rule split_on_join)
qed

lemma split_data_line:
  "r \<noteq> [] \<Longrightarrow> split_on delimiter (join delimiter (map str r)) = map str r"
proof -
  assume "r \<noteq> []"
  then have "map str r \<noteq> []" by simp
  then show ?thesis using strs_no_delimiter by (rule split_on_join)
qed

subsection \<open>Reading the text of a run back\<close>

lemma header_fields_file_text:
  "0 < n_dims \<Longrightarrow> header_fields (file_text n_rows n_dims g) = headers n_dims"
  by (simp add: header_fields_def splitlines_file_text file_lines_def split_header_line)

lemma cells_file_text:
  assumes "0 < n_dims"
  shows "cells (file_text n_rows n_dims g) = map (map Some) (samples (nat n_rows) (nat n_dims) g)"
proof -
  have row: "map int_of_str (split_on delimiter (join delimiter (map str r))) = map Some r"
    if "r \<in> set (samples (nat n_rows) (nat n_dims) g)" for r
  proof -
    have "length r = nat n_dims" using samples_rows [OF that] by simp
    then have "r \<noteq> []" using assms by auto
    then have "split_on delimiter (join delimiter (map str r)) = map str r"
      by (rule split_data_line)
    then show ?thesis by (simp add: int_of_str_str comp_def)
  qed
  have "cells (file_text n_rows n_dims g) =
        map (\<lambda>r. map int_of_str (split_on delimiter (join delimiter (map str r))))
          (samples (nat n_rows) (nat n_dims) g)"
    by (simp add: cells_def splitlines_file_text file_lines_def comp_def)
  also have "\<dots> = map (map Some) (samples (nat n_rows) (nat n_dims) g)"
    by (rule map_cong [OF refl]) (rule row)
  finally show ?thesis .
qed

lemma length_file_lines: "length (file_lines n_rows n_dims g) = Suc (nat n_rows)"
  by (simp add: file_lines_def length_samples)

lemma headers_from_one:
  "headers n = map (\<lambda>i. ''dimension_'' @ str (int i)) [1..<Suc (nat n)]"
proof -
  have "[1..<Suc (nat n)] = map Suc [0..<nat n]" by (simp add: map_Suc_upt)
  then show ?thesis by (simp add: headers_def range_py_def comp_def add.commute)
qed

subsection \<open>Line count\<close>

text \<open>
  C1. With positive \<open>n_rows\<close> and \<open>n_dims\<close>, on a file that can be opened and a device that
  does not fail, the call returns normally and the file has exactly \<open>n_rows + 1\<close> lines:
  the first is the header line and the \<open>n_rows\<close> lines after it are the data rows, which
  read back as the arrays the loop drew, in order.
\<close>

theorem line_count:
  assumes "0 < n_rows" and "0 < n_dims" and "writable w f" and "io_budget w = None"
  shows "fst (generate_dataset f n_rows n_dims w) = Inr () \<and>
         int (length (splitlines (contents (snd (generate_dataset f n_rows n_dims w)) f)))
           = n_rows + 1 \<and>
         hd (splitlines (contents (snd (generate_dataset f n_rows n_dims w)) f))
           = join delimiter (headers n_dims) \<and>
         length (cells (contents (snd (generate_dataset f n_rows n_dims w)) f)) = nat n_rows \<and>
         cells (contents (snd (generate_dataset f n_rows n_dims w)) f)
           = map (map Some) (samples (nat n_rows) (nat n_dims) (bitgen w))"
proof -
  have d: "0 \<le> n_dims" using assms(2) by simp
  have c: "contents (snd (generate_dataset f n_rows n_dims w)) f = file_text n_rows n_dims (bitgen w)"
    by (rule contents_after_ok [OF assms(3) assms(4) d])
  have r: "fst (generate_dataset f n_rows n_dims w) = Inr ()"
    by (simp add: generate_dataset_ok [OF assms(3) assms(4) d])
  have n: "int (length (file_lines n_rows n_dims (bitgen w))) = n_rows + 1"
    using assms(1) by (simp add: length_file_lines)
  have h: "hd (file_lines n_rows n_dims (bitgen w)) = join delimiter (headers n_dims)"
    by (simp add: file_lines_def)
  show ?thesis
    unfolding c using r n h assms(2)
    by (simp add: splitlines_file_text cells_file_text length_samples)
qed

theorem line_count_witness:
  "fst (generate_dataset ''t1.csv'' 3 2 demo_world) = Inr () \<and>
   int (length (splitlines (contents (snd (generate_dataset ''t1.csv'' 3 2 demo_world)) ''t1.csv''))) = 4"
  using line_count [of 3 2 demo_world "''t1.csv''"] by (simp add: demo_world_def)

subsection \<open>Header row\<close>

text \<open>
  C2. With positive \<open>n_dims\<close>, the first line of the file, split at the commas, is exactly
  \<open>dimension_1, \<dots>, dimension_n\<close> in this order: \<open>n_dims\<close> fields, numbered from one, and
  the line is these fields joined by commas.
\<close>

theorem header_row:
  assumes "0 < n_dims" and "writable w f" and "io_budget w = None"
  shows "fst (generate_dataset f n_rows n_dims w) = Inr () \<and>
         header_fields (contents (snd (generate_dataset f n_rows n_dims w)) f)
           = map (\<lambda>i. ''dimension_'' @ str (int i)) [1..<Suc (nat n_dims)] \<and>
         length (header_fields (contents (snd (generate_dataset f n_rows n_dims w)) f))
           = nat n_dims \<and>
         hd (splitlines (contents (snd (generate_dataset f n_rows n_dims w)) f))
           = join delimiter (map (\<lambda>i. ''dimension_'' @ str (int i)) [1..<Suc (nat n_dims)])"
proof -
  have d: "0 \<le> n_dims" using assms(1) by simp
  have c: "contents (snd (generate_dataset f n_rows n_dims w)) f = file_text n_rows n_dims (bitgen w)"
    by (rule contents_after_ok [OF assms(2) assms(3) d])
  have r: "fst (generate_dataset f n_rows n_dims w) = Inr ()"
    by (simp add: generate_dataset_ok [OF assms(2) assms(3) d])
  have hf: "header_fields (file_text n_rows n_dims (bitgen w)) = headers n_dims"
    by (rule header_fields_file_text [OF assms(1)])
  have h: "hd (splitlines (file_text n_rows n_dims (bitgen w))) = join delimiter (headers n_dims)"
    by (simp add: splitlines_file_text file_lines_def)
  have l: "length (headers n_dims) = nat n_dims" by (rule length_headers)
  show ?thesis
    unfolding c hf h using r l unfolding headers_from_one by simp
qed

theorem header_row_witness:
  "header_fields (contents (snd (generate_dataset ''t2.csv'' 1 5 demo_world)) ''t2.csv'')
     = [''dimension_1'', ''dimension_2'', ''dimension_3'', ''dimension_4'', ''dimension_5'']"
proof -
  have s: "map (\<lambda>i. ''dimension_'' @ str (int i)) [1..<Suc (nat 5)]
           = [''dimension_1'', ''dimension_2'', ''dimension_3'', ''dimension_4'', ''dimension_5'']"
    by code_simp
  show ?thesis
    using header_row [of 5 demo_world "''t2.csv''" 1] unfolding s by (simp add: demo_world_def)
qed

subsection \<open>Counting streams\<close>











subsection \<open>Cell values\<close>



subsection \<open>Row width and column order\<close>

text \<open>
  C4. With positive \<open>n_rows\<close> and \<open>n_dims\<close>, every data row has exactly \<open>n_dims\<close> fields, as
  many as the header. The order is the same in both: field \<open>j\<close> of the header is the name
  of dimension \<open>j + 1\<close>, and field \<open>j\<close> of data row \<open>i\<close> is the \<open>j\<close>-th value of the \<open>i\<close>-th
  array drawn (raw output \<open>i * n_dims + j\<close> of the generator, taken into 0..100).
\<close>

theorem row_width:
  assumes "0 < n_rows" and "0 < n_dims" and "writable w f" and "io_budget w = None"
  shows "fst (generate_dataset f n_rows n_dims w) = Inr () \<and>
         length (header_fields (contents (snd (generate_dataset f n_rows n_dims w)) f))
           = nat n_dims \<and>
         (\<forall>row\<in>set (cells (contents (snd (generate_dataset f n_rows n_dims w)) f)).
            length row = nat n_dims) \<and>
         (\<forall>i j. i < nat n_rows \<and> j < nat n_dims \<longrightarrow>
            header_fields (contents (snd (generate_dataset f n_rows n_dims w)) f) ! j
              = ''dimension_'' @ str (int j + 1) \<and>
            cells (contents (snd (generate_dataset f n_rows n_dims w)) f) ! i ! j
              = Some (int (bitgen w (i * nat n_dims + j) mod 101)))"
proof -
  have d: "0 \<le> n_dims" using assms(2) by simp
  have c: "contents (snd (generate_dataset f n_rows n_dims w)) f = file_text n_rows n_dims (bitgen w)"
    by (rule contents_after_ok [OF assms(3) assms(4) d])
  have r: "fst (generate_dataset f n_rows n_dims w) = Inr ()"
    by (simp add: generate_dataset_ok [OF assms(3) assms(4) d])
  let ?S = "samples (nat n_rows) (nat n_dims) (bitgen w)"
  have hf: "header_fields (file_text n_rows n_dims (bitgen w)) = headers n_dims"
    by (rule header_fields_file_text [OF assms(2)])
  have ce: "cells (file_text n_rows n_dims (bitgen w)) = map (map Some) ?S"
    by (rule cells_file_text [OF assms(2)])
  have w1: "\<forall>row\<in>set (map (map Some) ?S). length row = nat n_dims"
    using samples_rows [of _ "nat n_rows" "nat n_dims" "bitgen w"] by auto
  have w2: "headers n_dims ! j = ''dimension_'' @ str (int j + 1) \<and>
            map (map Some) ?S ! i ! j = Some (int (bitgen w (i * nat n_dims + j) mod 101))"
    if "i < nat n_rows" and "j < nat n_dims" for i j
  proof -
    have "length (?S ! i) = nat n_dims"
      using samples_rows [of "?S ! i" "nat n_rows" "nat n_dims" "bitgen w"] that(1)
      by (simp add: length_samples)
    then show ?thesis
      using that by (simp add: headers_nth length_samples samples_nth)
  qed
  have w3: "\<forall>i j. i < nat n_rows \<and> j < nat n_dims \<longrightarrow>
              headers n_dims ! j = ''dimension_'' @ str (int j + 1) \<and>
              map (map Some) ?S ! i ! j = Some (int (bitgen w (i * nat n_dims + j) mod 101))"
    using w2 by blast
  show ?thesis
    unfolding c hf ce using r length_headers [of n_dims] w1 w3 by blast
qed

theorem row_width_witness:
  "list_all (\<lambda>row. length row = 2)
     (cells (contents (snd (generate_dataset ''t1.csv'' 3 2 demo_world)) ''t1.csv'')) \<and>
   length (header_fields (contents (snd (generate_dataset ''t1.csv'' 3 2 demo_world)) ''t1.csv'')) = 2"
  using row_width [of 3 2 demo_world "''t1.csv''"]
  by (simp add: demo_world_def list_all_iff)

subsection \<open>Line endings\<close>

lemma rows_end_with_file_text: "rows_end_with lineterminator (file_text n_rows n_dims g)"
  unfolding rows_end_with_def splitlines_file_text by (rule file_text_lines)

text \<open>
  C6, as stated: every row ends with the line ending of the platform. On a platform
  whose line ending is a single line feed the rows of the file still end with carriage
  return and line feed, so the text of the file is not its lines each followed by the
  platform's line ending.
\<close>

theorem platform_line_ending_counterexample:
  "linesep demo_world = [LF] \<and>
   contents (snd (generate_dataset ''t1.csv'' 1 1 demo_world)) ''t1.csv''
     = ''dimension_1'' @ [CR, LF] @ ''48'' @ [CR, LF] \<and>
   \<not> rows_end_with (linesep demo_world)
       (contents (snd (generate_dataset ''t1.csv'' 1 1 demo_world)) ''t1.csv'')"
proof -
  have c: "contents (snd (generate_dataset ''t1.csv'' 1 1 demo_world)) ''t1.csv''
           = ''dimension_1'' @ [CR, LF] @ ''48'' @ [CR, LF]"
    by code_simp
  have l: "linesep demo_world = [LF]" by (simp add: demo_world_def)
  have "\<not> rows_end_with [LF] (''dimension_1'' @ [CR, LF] @ ''48'' @ [CR, LF])"
    by (simp add: rows_end_with_def CR_def LF_def)
  then show ?thesis unfolding c l by simp
qed

text \<open>
  C6, amended: the file is opened with \<^verbatim>\<open>newline=''\<close>, so nothing the writer emits is
  translated, and the writer ends every row, header and data alike, with carriage return
  and line feed. The text of the file is its lines, each followed by these two
  characters, and it is the same text whatever the line ending of the platform is.
\<close>

theorem line_terminator:
  assumes "0 \<le> n_dims" and "writable w f" and "io_budget w = None"
  shows "fst (generate_dataset f n_rows n_dims w) = Inr () \<and>
         rows_end_with lineterminator (contents (snd (generate_dataset f n_rows n_dims w)) f) \<and>
         contents (snd (generate_dataset f n_rows n_dims (w\<lparr>linesep := sep\<rparr>))) f
           = contents (snd (generate_dataset f n_rows n_dims w)) f"
proof -
  have c: "contents (snd (generate_dataset f n_rows n_dims w)) f = file_text n_rows n_dims (bitgen w)"
    by (rule contents_after_ok [OF assms(2) assms(3) assms(1)])
  have c': "contents (snd (generate_dataset f n_rows n_dims (w\<lparr>linesep := sep\<rparr>))) f
            = file_text n_rows n_dims (bitgen w)"
    using contents_after_ok [of "w\<lparr>linesep := sep\<rparr>" f n_dims n_rows] assms by simp
  have r: "fst (generate_dataset f n_rows n_dims w) = Inr ()"
    by (simp add: generate_dataset_ok [OF assms(2) assms(3) assms(1)])
  show ?thesis unfolding c c' using r rows_end_with_file_text by simp
qed

theorem line_terminator_witness:
  "rows_end_with lineterminator
     (contents (snd (generate_dataset ''t1.csv'' 3 2 demo_world)) ''t1.csv'') \<and>
   contents (snd (generate_dataset ''t1.csv'' 3 2 (demo_world\<lparr>linesep := [CR, LF]\<rparr>))) ''t1.csv''
     = contents (snd (generate_dataset ''t1.csv'' 3 2 demo_world)) ''t1.csv''"
  using line_terminator [of 2 demo_world "''t1.csv''" 3 "[CR, LF]"]
  by (simp add: demo_world_def)

subsection \<open>No rows\<close>

text \<open>
  C7. A row count of zero is not rejected: with positive \<open>n_dims\<close> the call returns
  normally, prints its message, and leaves a file whose only line is the header.
\<close>

theorem zero_rows_header_only:
  assumes "0 < n_dims" and "writable w f" and "io_budget w = None"
  shows "generate_dataset f 0 n_dims w =
           (Inr (), w\<lparr>disk := (disk w)(f \<mapsto> csv_row (headers n_dims)),
                      stdout := stdout w @ [message f 0 n_dims]\<rparr>) \<and>
         splitlines (csv_row (headers n_dims)) = [join delimiter (headers n_dims)] \<and>
         split_on delimiter (join delimiter (headers n_dims)) = headers n_dims"
proof -
  have d: "0 \<le> n_dims" using assms(1) by simp
  have ft: "file_text 0 n_dims g = csv_row (headers n_dims)" for g
    by (simp add: file_text_def)
  have run: "generate_dataset f 0 n_dims w =
           (Inr (), w\<lparr>disk := (disk w)(f \<mapsto> csv_row (headers n_dims)),
                      stdout := stdout w @ [message f 0 n_dims]\<rparr>)"
    using generate_dataset_ok [OF assms(2) assms(3) d, of 0] by (simp add: ft)
  have "splitlines (file_text 0 n_dims g) = [join delimiter (headers n_dims)]" for g
    unfolding splitlines_file_text by (simp add: file_lines_def)
  then have sl: "splitlines (csv_row (headers n_dims)) = [join delimiter (headers n_dims)]"
    unfolding ft .
  show ?thesis using run sl split_header_line [OF assms(1)] by simp
qed

theorem zero_rows_header_only_witness:
  "fst (generate_dataset ''t0.csv'' 0 2 demo_world) = Inr () \<and>
   disk (snd (generate_dataset ''t0.csv'' 0 2 demo_world)) ''t0.csv''
     = Some (csv_row (headers 2)) \<and>
   splitlines (csv_row (headers 2)) = [join delimiter (headers 2)]"
  using zero_rows_header_only [of 2 demo_world "''t0.csv''"]
  by (simp add: demo_world_def)

subsection \<open>The file object is closed\<close>

lemma handles_generate_dataset:
  "handles (snd (generate_dataset f n_rows n_dims w)) = handles w"
proof (cases "writable w f")
  case False
  then show ?thesis by (simp add: generate_dataset_def open_w_def)
next
  case True
  let ?w1 = "w\<lparr>disk := (disk w)(f \<mapsto> []), handles := (f, Some []) # handles w\<rparr>"
  have op: "open_w f (Some []) w = (Inr (f, Some []), ?w1)"
    using True by (simp add: open_w_def)
  obtain r2 w2 where body: "with_body (f, Some []) (headers n_dims) n_rows n_dims ?w1 = (r2, w2)"
    by (cases "with_body (f, Some []) (headers n_dims) n_rows n_dims ?w1")
  have h2: "handles w2 = (f, Some []) # handles w"
    using handles_with_body [of "(f, Some [])" "headers n_dims" n_rows n_dims ?w1] body by simp
  show ?thesis
    using op body h2 by (cases r2) (simp_all add: generate_dataset_def fclose_def print_def)
qed

text \<open>
  C9. Whatever the arguments and whatever the world, the file objects open after the
  call are those open before it: the one the call opens is closed again when the body
  of the \<^verbatim>\<open>with\<close> statement ends normally, when sampling raises and when a write raises;
  when \<^verbatim>\<open>open\<close> itself raises there is nothing to close.
\<close>

theorem handle_released:
  "handles (snd (generate_dataset f n_rows n_dims w)) = handles w"
  by (rule handles_generate_dataset)

theorem handle_released_witness:
  "fst (generate_dataset ''t1.csv'' 2 1 (demo_world\<lparr>io_budget := Some 2\<rparr>)) = Inl OSError \<and>
   handles (snd (generate_dataset ''t1.csv'' 2 1 (demo_world\<lparr>io_budget := Some 2\<rparr>)))
     = handles (demo_world\<lparr>io_budget := Some 2\<rparr>)"
proof -
  have "fst (generate_dataset ''t1.csv'' 2 1 (demo_world\<lparr>io_budget := Some 2\<rparr>)) = Inl OSError"
    by code_simp
  then show ?thesis
    using handle_released [of "''t1.csv''" 2 1 "demo_world\<lparr>io_budget := Some 2\<rparr>"] by simp
qed

subsection \<open>A negative dimension count\<close>

lemma headers_negative: "n_dims < 0 \<Longrightarrow> headers n_dims = []"
  by (simp add: headers_def range_py_def)

lemma csv_row_empty: "csv_row [] = lineterminator"
  by (simp add: csv_row_def csv_record_def)

text \<open>
  C10. With \<open>n_dims < 0\<close> and \<open>n_rows \<ge> 1\<close>, on a file that can be opened and a device that
  accepts one more write, the call raises \<^verbatim>\<open>ValueError\<close> from the first sampling step.
  By then the file has been truncated and the header row of no fields written: the file
  is left holding one empty line, whatever it held before. The file object is closed
  and nothing is printed.
\<close>

theorem negative_dims_not_atomic:
  assumes "n_dims < 0" and "1 \<le> n_rows" and "writable w f" and "io_budget w \<noteq> Some 0"
  shows "fst (generate_dataset f n_rows n_dims w) = Inl ValueError \<and>
         disk (snd (generate_dataset f n_rows n_dims w)) f = Some lineterminator \<and>
         splitlines lineterminator = [[]] \<and>
         handles (snd (generate_dataset f n_rows n_dims w)) = handles w \<and>
         stdout (snd (generate_dataset f n_rows n_dims w)) = stdout w"
proof -
  let ?w1 = "w\<lparr>disk := (disk w)(f \<mapsto> []), handles := (f, Some []) # handles w\<rparr>"
  have op: "open_w f (Some []) w = (Inr (f, Some []), ?w1)"
    using assms(3) by (simp add: open_w_def)
  obtain w2 where hd: "writerow (f, Some []) [] ?w1 = (Inr (), w2)"
    and d2: "disk w2 f = Some lineterminator"
    and h2: "handles w2 = (f, Some []) # handles w" and s2: "stdout w2 = stdout w"
  proof (cases "io_budget w")
    case None
    then show ?thesis
      using that [of "?w1\<lparr>disk := (disk ?w1)(f \<mapsto> lineterminator)\<rparr>"]
      by (simp add: writerow_def fwrite_def csv_row_empty contents_def translate_newlines_def)
  next
    case (Some b)
    then obtain b' where "b = Suc b'" using assms(4) by (cases b) auto
    then show ?thesis
      using Some that [of "?w1\<lparr>disk := (disk ?w1)(f \<mapsto> lineterminator), io_budget := Some b'\<rparr>"]
      by (simp add: writerow_def fwrite_def csv_row_empty contents_def translate_newlines_def)
  qed
  obtain k where k: "nat n_rows = Suc k" using assms(2) by (cases "nat n_rows") auto
  have lp: "row_loop (nat n_rows) (f, Some []) n_dims w2 = (Inl ValueError, w2)"
    unfolding k using assms(1) by (simp add: randint_def)
  have body: "with_body (f, Some []) (headers n_dims) n_rows n_dims ?w1 = (Inl ValueError, w2)"
    using hd lp by (simp add: with_body_def headers_negative [OF assms(1)] range_py_def)
  have run: "generate_dataset f n_rows n_dims w = (Inl ValueError, fclose (f, Some []) w2)"
    using op body by (simp add: generate_dataset_def)
  have sl: "splitlines lineterminator = [[]]"
    by (simp add: lineterminator_def CR_def LF_def)
  show ?thesis
    unfolding run using d2 h2 s2 sl by (simp add: fclose_def)
qed

theorem negative_dims_not_atomic_witness:
  "fst (generate_dataset ''t1.csv'' 3 (- 1)
          (demo_world\<lparr>disk := [''t1.csv'' \<mapsto> ''old,data'']\<rparr>)) = Inl ValueError \<and>
   disk (snd (generate_dataset ''t1.csv'' 3 (- 1)
          (demo_world\<lparr>disk := [''t1.csv'' \<mapsto> ''old,data'']\<rparr>))) ''t1.csv''
     = Some lineterminator"
  using negative_dims_not_atomic
    [of "- 1" 3 "demo_world\<lparr>disk := [''t1.csv'' \<mapsto> ''old,data'']\<rparr>" "''t1.csv''"]
  by (simp add: demo_world_def)

subsection \<open>What a call leaves alone\<close>

lemma undisturbed_refl: "undisturbed w w"
  by (simp add: undisturbed_def)

lemma undisturbed_trans: "undisturbed w w1 \<Longrightarrow> undisturbed w1 w2 \<Longrightarrow> undisturbed w w2"
  by (simp add: undisturbed_def)

lemma undisturbed_fwrite: "undisturbed w (snd (fwrite f s w))"
  by (simp add: undisturbed_def fwrite_def split: option.splits nat.splits)

lemma undisturbed_writerow: "undisturbed w (snd (writerow f row w))"
  by (simp add: writerow_def undisturbed_fwrite)

lemma undisturbed_randint: "undisturbed w (snd (randint low high d w))"
  by (simp add: undisturbed_def randint_def)

lemma undisturbed_row_loop: "undisturbed w (snd (row_loop k f d w))"
proof (induction k arbitrary: w)
  case 0
  show ?case by (simp add: undisturbed_refl)
next
  case (Suc k)
  obtain r1 w1 where r: "randint 0 101 d w = (r1, w1)" by (cases "randint 0 101 d w")
  have u1: "undisturbed w w1" using undisturbed_randint [of w 0 101 d] r by simp
  show ?case
  proof (cases r1)
    case (Inl e)
    then show ?thesis using r u1 by simp
  next
    case (Inr vals)
    obtain r2 w2 where wr: "writerow f (map str vals) w1 = (r2, w2)"
      by (cases "writerow f (map str vals) w1")
    have u2: "undisturbed w w2"
      using undisturbed_trans [OF u1] undisturbed_writerow [of w1 f "map str vals"] wr by simp
    show ?thesis
    proof (cases r2)
      case (Inl e)
      then show ?thesis using r Inr wr u2 by simp
    next
      case (Inr u)
      then show ?thesis
        using r \<open>r1 = Inr vals\<close> wr undisturbed_trans [OF u2 Suc.IH [of w2]] by simp
    qed
  qed
qed

lemma undisturbed_with_body: "undisturbed w (snd (with_body f hs n_rows n_dims w))"
proof -
  obtain r1 w1 where wr: "writerow f hs w = (r1, w1)" by (cases "writerow f hs w")
  have u1: "undisturbed w w1" using undisturbed_writerow [of w f hs] wr by simp
  show ?thesis
    using wr u1 undisturbed_trans [OF u1 undisturbed_row_loop [of w1 "length (range_py n_rows)" f n_dims]]
    by (cases r1) (simp_all add: with_body_def)
qed

lemma undisturbed_generate_dataset: "undisturbed w (snd (generate_dataset f n_rows n_dims w))"
proof (cases "writable w f")
  case False
  then show ?thesis by (simp add: generate_dataset_def open_w_def undisturbed_refl)
next
  case True
  let ?w1 = "w\<lparr>disk := (disk w)(f \<mapsto> []), handles := (f, Some []) # handles w\<rparr>"
  have op: "open_w f (Some []) w = (Inr (f, Some []), ?w1)"
    using True by (simp add: open_w_def)
  obtain r2 w2 where body: "with_body (f, Some []) (headers n_dims) n_rows n_dims ?w1 = (r2, w2)"
    by (cases "with_body (f, Some []) (headers n_dims) n_rows n_dims ?w1")
  have "undisturbed ?w1 w2"
    using undisturbed_with_body [of ?w1 "(f, Some [])" "headers n_dims" n_rows n_dims] body by simp
  then have u2: "undisturbed w w2" by (simp add: undisturbed_def)
  show ?thesis
    using op body u2
    by (cases r2) (simp_all add: generate_dataset_def fclose_def print_def undisturbed_def)
qed

subsection \<open>Running twice\<close>

text \<open>
  C8. After any earlier call on the same name, a call with positive \<open>n_dims\<close> in a world
  where the file can be opened and no write fails leaves exactly its own output in the
  file: the header, then its own \<open>n_rows\<close> data rows, read back as the arrays this call
  drew. Nothing of what the file held before remains: the file is what the same call
  leaves on an empty disk.
\<close>

theorem rerun_overwrites:
  assumes "0 < d2" and "writable w f" and "io_budget w = None"
  shows "fst (generate_dataset f r2 d2 (snd (generate_dataset f r1 d1 w))) = Inr () \<and>
         length (splitlines (contents
           (snd (generate_dataset f r2 d2 (snd (generate_dataset f r1 d1 w)))) f)) = nat r2 + 1 \<and>
         header_fields (contents
           (snd (generate_dataset f r2 d2 (snd (generate_dataset f r1 d1 w)))) f) = headers d2 \<and>
         cells (contents
           (snd (generate_dataset f r2 d2 (snd (generate_dataset f r1 d1 w)))) f)
           = map (map Some)
               (samples (nat r2) (nat d2) (bitgen (snd (generate_dataset f r1 d1 w)))) \<and>
         contents (snd (generate_dataset f r2 d2 (snd (generate_dataset f r1 d1 w)))) f
           = contents (snd (generate_dataset f r2 d2
               ((snd (generate_dataset f r1 d1 w))\<lparr>disk := Map.empty\<rparr>))) f"
proof -
  let ?w1 = "snd (generate_dataset f r1 d1 w)"
  have u: "undisturbed w ?w1" by (rule undisturbed_generate_dataset)
  have wr: "writable ?w1 f" and bud: "io_budget ?w1 = None"
    using u assms(2) assms(3) by (simp_all add: undisturbed_def)
  have d: "0 \<le> d2" using assms(1) by simp
  have c: "contents (snd (generate_dataset f r2 d2 ?w1)) f = file_text r2 d2 (bitgen ?w1)"
    by (rule contents_after_ok [OF wr bud d])
  have c': "contents (snd (generate_dataset f r2 d2 (?w1\<lparr>disk := Map.empty\<rparr>))) f
            = file_text r2 d2 (bitgen ?w1)"
    using contents_after_ok [of "?w1\<lparr>disk := Map.empty\<rparr>" f d2 r2] wr bud d by simp
  have r: "fst (generate_dataset f r2 d2 ?w1) = Inr ()"
    by (simp add: generate_dataset_ok [OF wr bud d])
  show ?thesis
    unfolding c c' using r
    by (simp add: splitlines_file_text length_file_lines header_fields_file_text [OF assms(1)]
        cells_file_text [OF assms(1)])
qed

theorem rerun_overwrites_witness:
  "length (splitlines (contents
     (snd (generate_dataset ''t1.csv'' 1 2 (snd (generate_dataset ''t1.csv'' 3 2 demo_world))))
     ''t1.csv'')) = 2"
proof -
  have h: "(0::int) < 2" "writable demo_world ''t1.csv''" "io_budget demo_world = None"
    by (simp_all add: demo_world_def)
  show ?thesis
    using rerun_overwrites [OF h, of 1 3 2, THEN conjunct2, THEN conjunct1] by simp
qed

subsection \<open>The driver\<close>

lemma call_seq_append:
  "call_seq (xs @ ys) w =
     (case call_seq xs w of (Inl e, w1) \<Rightarrow> (Inl e, w1) | (Inr u, w1) \<Rightarrow> call_seq ys w1)"
proof (induction xs arbitrary: w)
  case Nil
  show ?case by simp
next
  case (Cons x xs)
  obtain f r d where x: "x = (f, r, d)" by (cases x)
  obtain r1 w1 where g: "generate_dataset f r d w = (r1, w1)"
    by (cases "generate_dataset f r d w")
  show ?case using x g Cons.IH [of w1] by (cases r1) simp_all
qed

lemma size_loop_calls:
  "size_loop d ns w =
     call_seq (map (\<lambda>n. (''dataset_'' @ str d @ ''D_'' @ str n @ ''.csv'', n, d)) ns) w"
proof (induction ns arbitrary: w)
  case Nil
  show ?case by simp
next
  case (Cons n ns)
  obtain r1 w1 where g:
    "generate_dataset (''dataset_'' @ str d @ ''D_'' @ str n @ ''.csv'') n d w = (r1, w1)"
    by (cases "generate_dataset (''dataset_'' @ str d @ ''D_'' @ str n @ ''.csv'') n d w")
  show ?case using g Cons.IH [of w1] by (cases r1) simp_all
qed

lemma dims_loop_calls:
  "dims_loop ds w =
     call_seq (concat (map (\<lambda>d. map (\<lambda>n. (''dataset_'' @ str d @ ''D_'' @ str n @ ''.csv'', n, d))
       sizes) ds)) w"
proof (induction ds arbitrary: w)
  case Nil
  show ?case by simp
next
  case (Cons d ds)
  obtain r1 w1 where s: "size_loop d sizes w = (r1, w1)" by (cases "size_loop d sizes w")
  have c: "call_seq (map (\<lambda>n. (''dataset_'' @ str d @ ''D_'' @ str n @ ''.csv'', n, d)) sizes) w
           = (r1, w1)"
    using s by (simp add: size_loop_calls)
  show ?case
    using s c Cons.IH [of w1] by (cases r1) (simp_all add: call_seq_append del: append.simps)
qed

lemma call_seq_ok:
  assumes "io_budget w = None" and "list_all (\<lambda>(f, r, d). writable w f \<and> 0 \<le> d) calls"
  shows "fst (call_seq calls w) = Inr () \<and>
         stdout (snd (call_seq calls w)) = stdout w @ map (\<lambda>(f, r, d). message f r d) calls \<and>
         dom (disk (snd (call_seq calls w))) = dom (disk w) \<union> fst ` set calls"
  using assms
proof (induction calls arbitrary: w)
  case Nil
  show ?case by simp
next
  case (Cons x calls)
  obtain f r d where x: "x = (f, r, d)" by (cases x)
  let ?w1 = "w\<lparr>disk := (disk w)(f \<mapsto> file_text r d (bitgen w)),
               stdout := stdout w @ [message f r d],
               bitgen := (\<lambda>j. bitgen w (j + nat r * nat d))\<rparr>"
  have wr: "writable w f" and d: "0 \<le> d" using Cons.prems(2) x by simp_all
  have g: "generate_dataset f r d w = (Inr (), ?w1)"
    by (rule generate_dataset_ok [OF wr Cons.prems(1) d])
  have b1: "io_budget ?w1 = None" using Cons.prems(1) by simp
  have l1: "list_all (\<lambda>(f, r, d). writable ?w1 f \<and> 0 \<le> d) calls"
    using Cons.prems(2) by simp
  have ih: "fst (call_seq calls ?w1) = Inr () \<and>
         stdout (snd (call_seq calls ?w1)) = stdout ?w1 @ map (\<lambda>(f, r, d). message f r d) calls \<and>
         dom (disk (snd (call_seq calls ?w1))) = dom (disk ?w1) \<union> fst ` set calls"
    by (rule Cons.IH [OF b1 l1])
  have step: "call_seq (x # calls) w = call_seq calls ?w1" using x g by simp
  show ?case unfolding step using ih x by auto
qed

text \<open>
  C5. The driver is the sequence of eight calls of \<open>generate_dataset\<close> below, in this order:
  the dimension counts 10, 20 in the outer loop, the row counts 100, 1000, 10000, 100000
  in the inner loop, each call on the file named from its two numbers. A call that
  raises ends the run. In a world where every file can be opened and no write fails
  all eight calls return: eight lines are printed, one per call in this order, and the
  files on the disk are those there before and the eight named.
\<close>

theorem driver_invocations:
  "let calls =
     [(''dataset_10D_100.csv'', 100, 10), (''dataset_10D_1000.csv'', 1000, 10),
      (''dataset_10D_10000.csv'', 10000, 10), (''dataset_10D_100000.csv'', 100000, 10),
      (''dataset_20D_100.csv'', 100, 20), (''dataset_20D_1000.csv'', 1000, 20),
      (''dataset_20D_10000.csv'', 10000, 20), (''dataset_20D_100000.csv'', 100000, 20)]
   in driver w = call_seq calls w \<and> length calls = 8 \<and>
      ((\<forall>name. writable w name) \<and> io_budget w = None \<longrightarrow>
         fst (driver w) = Inr () \<and>
         stdout (snd (driver w)) = stdout w @ map (\<lambda>(f, r, d). message f r d) calls \<and>
         dom (disk (snd (driver w))) = dom (disk w) \<union> fst ` set calls)"
proof -
  let ?calls =
    "[(''dataset_10D_100.csv'', 100, 10), (''dataset_10D_1000.csv'', 1000, 10),
      (''dataset_10D_10000.csv'', 10000, 10), (''dataset_10D_100000.csv'', 100000, 10),
      (''dataset_20D_100.csv'', 100, 20), (''dataset_20D_1000.csv'', 1000, 20),
      (''dataset_20D_10000.csv'', 10000, 20), (''dataset_20D_100000.csv'', 100000::int, 20::int)]"
  have names: "concat (map (\<lambda>d. map (\<lambda>n. (''dataset_'' @ str d @ ''D_'' @ str n @ ''.csv'', n, d))
                 sizes) dimensions) = ?calls"
    by (simp add: sizes_def dimensions_def str_def str_nat.simps digit_char_def)
  have run: "driver w = call_seq ?calls w"
    unfolding driver_def dims_loop_calls names ..
  have ok: "fst (call_seq ?calls w) = Inr () \<and>
         stdout (snd (call_seq ?calls w)) = stdout w @ map (\<lambda>(f, r, d). message f r d) ?calls \<and>
         dom (disk (snd (call_seq ?calls w))) = dom (disk w) \<union> fst ` set ?calls"
    if "\<forall>name. writable w name" and "io_budget w = None"
    by (rule call_seq_ok [OF that(2)]) (simp add: that(1))
  show ?thesis
    unfolding Let_def run using ok by simp
qed

theorem driver_invocations_witness:
  "fst (driver demo_world) = Inr () \<and> length (stdout (snd (driver demo_world))) = 8"
proof -
  have h: "\<forall>name. writable demo_world name" "io_budget demo_world = None"
    "stdout demo_world = []"
    by (simp_all add: demo_world_def)
  show ?thesis
    using driver_invocations [of demo_world, unfolded Let_def, THEN conjunct2, THEN conjunct2] h
    by simp
qed

end
